theory Spec2Isabelle
  imports Main "HOL-Library.Multiset" "HOL-Library.Sublist"
begin

section \<open>The thread pool of thread\_pool.h as an interleaving state machine\<close>

text \<open>
  The class \<^verbatim>\<open>ThreadPool\<close> is a monitor: worker threads and calling threads share the
  members \<^verbatim>\<open>pool_\<close>, \<^verbatim>\<open>tasks_\<close>, \<^verbatim>\<open>quit_\<close>, \<^verbatim>\<open>force_\<close>, \<^verbatim>\<open>enable_\<close> and \<^verbatim>\<open>oper_lock_\<close>.
  Every thread is given a program counter that names the source statement it executes
  next; one step of the machine is one such statement of one thread. A schedule (a list
  of actions) picks the thread that moves, so every interleaving of the statements is a
  schedule, and the machine is a function of the schedule.

  The flags are \<^verbatim>\<open>std::atomic<bool>\<close> read and written with the default, sequentially
  consistent order, and the queue is touched only with the mutex held, so the
  interleavings of the statements are the behaviours of the class. What is outside the
  class is kept abstract: a callable is what it does when invoked (it returns a value or
  throws, and does not call the pool itself), and its invocation is one step.
\<close>

subsection \<open>Tasks and futures\<close>

text \<open>
  What the callable bound at line 83 does when it is invoked: it returns a value or it
  throws. (\<^verbatim>\<open>TYPE\<close> is instantiated to integers; the exception is its message.)
\<close>

datatype outcome = Value int | Exception string

text \<open>
  The \<^verbatim>\<open>std::packaged_task\<close> made at lines 82-85: the bound callable and the shared state
  it fills, which the caller's \<^verbatim>\<open>std::future\<close> reads. Shared states live in a store
  (\<open>futures\<close>, below) and are named by their index there.
\<close>

datatype task = Task (callable: outcome) (future: nat)

text \<open>
  \<^verbatim>\<open>std::packaged_task::operator()\<close>: when the shared state is still empty, the callable
  runs and its value or its exception is stored there, and the call returns normally;
  when the shared state is already filled, the call throws \<^verbatim>\<open>std::future_error\<close>.
  The result is the new store and the exception that leaves the call, if any.
\<close>

definition packaged_task_call :: "task \<Rightarrow> outcome option list \<Rightarrow> outcome option list \<times> string option" where
  "packaged_task_call t fs =
     (if future t < length fs \<and> fs ! future t = None
      then (fs[future t := Some (callable t)], None)
      else (fs, Some ''promise already satisfied''))"

subsection \<open>Threads\<close>

datatype thread = WorkerT nat | CallerT nat

text \<open>
  The worker lambda of \<^verbatim>\<open>start\<close> (lines 45-64), one constructor per statement:
  \<^item> \<open>WStart\<close>: line 47, about to load \<^verbatim>\<open>force_\<close>;
  \<^item> \<open>WReadQuit\<close>: line 47, \<^verbatim>\<open>force_\<close> was true, about to load \<^verbatim>\<open>quit_\<close>;
  \<^item> \<open>WLoop q\<close>: line 48, the test of the local \<^verbatim>\<open>quit_\<close>, whose value is \<open>q\<close>;
  \<^item> \<open>WLock\<close>: line 51, about to lock \<^verbatim>\<open>oper_lock_\<close>;
  \<^item> \<open>WWait\<close>: lines 52-54, holding the lock, about to evaluate the wait predicate;
  \<^item> \<open>WBlocked\<close>: inside \<^verbatim>\<open>enable_.wait\<close>, lock released, waiting for a notification;
  \<^item> \<open>WNotified\<close>: woken inside \<^verbatim>\<open>enable_.wait\<close>, about to lock \<^verbatim>\<open>oper_lock_\<close> again;
  \<^item> \<open>WCheck\<close>: line 56, holding the lock;
  \<^item> \<open>WDequeue\<close>: lines 59-61, holding the lock;
  \<^item> \<open>WRun t\<close>: line 62, about to invoke the dequeued task \<open>t\<close>, lock released;
  \<^item> \<open>WExited\<close>: the lambda has returned;
  \<^item> \<open>WUndefined\<close>: \<^verbatim>\<open>front()\<close> was called on an empty queue (undefined behaviour);
  \<^item> \<open>WTerminated\<close>: an exception left the lambda (\<^verbatim>\<open>std::terminate\<close>).
\<close>

datatype wpc =
    WStart
  | WReadQuit
  | WLoop bool
  | WLock
  | WWait
  | WBlocked
  | WNotified
  | WCheck
  | WDequeue
  | WRun task
  | WExited
  | WUndefined
  | WTerminated

text \<open>What a call of a calling thread left behind.\<close>

datatype result = Void | Future nat | Runtime_error string

text \<open>
  A calling thread, one constructor per statement of the member function it is in:
  \<^item> \<open>StartLoop idx\<close>: \<^verbatim>\<open>start\<close>, line 44, the loop test with the counter \<open>idx\<close>;
  \<^item> \<open>CommitCheck f\<close>: \<^verbatim>\<open>commit\<close>, line 78;
  \<^item> \<open>CommitMake f\<close>: lines 82-85, the packaged task and its future;
  \<^item> \<open>CommitLock t\<close>: line 86; \<open>CommitEmplace t\<close>: line 87; \<open>CommitNotify t\<close>: line 88;
  \<^item> \<open>CommitReturn t\<close>: line 89, the return, where the \<^verbatim>\<open>lock_guard\<close> is destroyed;
  \<^item> \<open>ShutdownQuit b\<close>: \<^verbatim>\<open>shutdown\<close>, line 69; \<open>ShutdownForce b\<close>: line 70;
  \<^item> \<open>DtorQuit\<close>: the destructor, line 34; \<open>DtorNotify\<close>: line 35;
  \<^item> \<open>DtorJoin k\<close>: lines 36-40, at the \<open>k\<close>-th thread of \<^verbatim>\<open>pool_\<close>;
  \<^item> \<open>Destroyed\<close>: the destructor has returned.
\<close>

datatype cpc =
    Idle result
  | StartLoop int
  | CommitCheck outcome
  | CommitMake outcome
  | CommitLock task
  | CommitEmplace task
  | CommitNotify task
  | CommitReturn task
  | ShutdownQuit bool
  | ShutdownForce bool
  | DtorQuit
  | DtorNotify
  | DtorJoin nat
  | Destroyed

subsection \<open>The state\<close>

text \<open>
  The members of \<^verbatim>\<open>ThreadPool\<close> (lines 92-101) under their names, without the final
  underscore, which an identifier cannot end with here (\<open>max_m\<close> is \<^verbatim>\<open>max_\<close>). \<open>pool\<close>
  holds, for every \<^verbatim>\<open>std::thread\<close> of the vector, where that thread is. The head of
  \<open>tasks\<close> is the front of the \<^verbatim>\<open>std::queue\<close>. \<open>oper_lock\<close> is the owner of the mutex. The threads
  waiting on \<^verbatim>\<open>enable_\<close> are the workers at \<open>WBlocked\<close>. \<open>futures\<close> is the store of shared
  states and \<open>callers\<close> the calling threads.
\<close>

record state =
  pool :: "wpc list"
  tasks :: "task list"
  core :: int
  max_m :: int
  cache :: int
  quit :: bool
  force :: bool
  oper_lock :: "thread option"
  futures :: "outcome option list"
  callers :: "cpc list"

text \<open>The constructor (lines 28-31), with \<open>n\<close> calling threads that hold the pool.\<close>

definition ThreadPool :: "nat \<Rightarrow> int \<Rightarrow> int \<Rightarrow> int \<Rightarrow> state" where
  "ThreadPool n co mx ca =
     \<lparr>pool = [], tasks = [], core = co, max_m = mx, cache = ca,
      quit = False, force = False, oper_lock = None, futures = [],
      callers = replicate n (Idle Void)\<rparr>"

subsection \<open>Events\<close>

text \<open>What a step does to the shared objects, for statements about the order of effects.\<close>

datatype event =
    Acquire thread
  | Release thread
  | Enqueue task
  | Dequeue nat task
  | Invoke nat task
  | Notify_one "nat option"
  | Notify_all
  | Throw nat string
  | Exit nat

subsection \<open>Steps\<close>

definition set_wpc :: "nat \<Rightarrow> wpc \<Rightarrow> state \<Rightarrow> state" where
  "set_wpc i pc s = s\<lparr>pool := (pool s)[i := pc]\<rparr>"

definition set_cpc :: "nat \<Rightarrow> cpc \<Rightarrow> state \<Rightarrow> state" where
  "set_cpc c pc s = s\<lparr>callers := (callers s)[c := pc]\<rparr>"

text \<open>
  The next statement of worker \<open>i\<close> (lines 47-63). \<open>None\<close>: the thread cannot move (the
  mutex is taken, it waits for a notification, or it has ended).
\<close>

definition worker_step :: "nat \<Rightarrow> state \<Rightarrow> (event list \<times> state) option" where
  "worker_step i s =
     (if i < length (pool s) then
        (case pool s ! i of
           WStart \<Rightarrow> Some ([], set_wpc i (if force s then WReadQuit else WLoop False) s)
         | WReadQuit \<Rightarrow> Some ([], set_wpc i (WLoop (quit s)) s)
         | WLoop q \<Rightarrow>
             (if q then Some ([Exit i], set_wpc i WExited s)
              else Some ([], set_wpc i WLock s))
         | WLock \<Rightarrow>
             (if oper_lock s = None
              then Some ([Acquire (WorkerT i)], set_wpc i WWait (s\<lparr>oper_lock := Some (WorkerT i)\<rparr>))
              else None)
         | WWait \<Rightarrow>
             (if quit s \<or> tasks s \<noteq> [] then Some ([], set_wpc i WCheck s)
              else Some ([Release (WorkerT i)], set_wpc i WBlocked (s\<lparr>oper_lock := None\<rparr>)))
         | WBlocked \<Rightarrow> None
         | WNotified \<Rightarrow>
             (if oper_lock s = None
              then Some ([Acquire (WorkerT i)], set_wpc i WWait (s\<lparr>oper_lock := Some (WorkerT i)\<rparr>))
              else None)
         | WCheck \<Rightarrow>
             (if quit s \<and> tasks s = []
              then Some ([Release (WorkerT i), Exit i], set_wpc i WExited (s\<lparr>oper_lock := None\<rparr>))
              else Some ([], set_wpc i WDequeue s))
         | WDequeue \<Rightarrow>
             (case tasks s of
                [] \<Rightarrow> Some ([], set_wpc i WUndefined s)
              | t # q \<Rightarrow>
                  Some ([Dequeue i t, Release (WorkerT i)],
                        set_wpc i (WRun t) (s\<lparr>tasks := q, oper_lock := None\<rparr>)))
         | WRun t \<Rightarrow>
             (case packaged_task_call t (futures s) of
                (fs, None) \<Rightarrow> Some ([Invoke i t], set_wpc i (WLoop False) (s\<lparr>futures := fs\<rparr>))
              | (fs, Some e) \<Rightarrow> Some ([Invoke i t], set_wpc i WTerminated (s\<lparr>futures := fs\<rparr>)))
         | WExited \<Rightarrow> None
         | WUndefined \<Rightarrow> None
         | WTerminated \<Rightarrow> None)
      else None)"

text \<open>A spurious wake-up of worker \<open>i\<close> inside \<^verbatim>\<open>enable_.wait\<close>.\<close>

definition spurious_step :: "nat \<Rightarrow> state \<Rightarrow> (event list \<times> state) option" where
  "spurious_step i s =
     (if i < length (pool s) \<and> pool s ! i = WBlocked then Some ([], set_wpc i WNotified s)
      else None)"

text \<open>\<^verbatim>\<open>notify_all\<close> unblocks every thread waiting on the condition variable.\<close>

definition wake :: "wpc \<Rightarrow> wpc" where
  "wake pc = (if pc = WBlocked then WNotified else pc)"

text \<open>
  The next statement of calling thread \<open>c\<close>: \<^verbatim>\<open>start\<close> (lines 43-66), \<^verbatim>\<open>commit\<close>
  (lines 76-90), \<^verbatim>\<open>shutdown\<close> (lines 68-71) and the destructor (lines 33-41). At
  \<open>CommitNotify\<close> this is \<^verbatim>\<open>notify_one\<close> with no thread waiting; with a thread waiting,
  the step is \<open>wake_step\<close>, which names the thread that is unblocked. \<^verbatim>\<open>join\<close> cannot
  move before the joined thread has ended.
\<close>

definition error_message :: string where
  "error_message = ''thread pool is alreay shutdown.''"

definition caller_step :: "nat \<Rightarrow> state \<Rightarrow> (event list \<times> state) option" where
  "caller_step c s =
     (if c < length (callers s) then
        (case callers s ! c of
           Idle r \<Rightarrow> None
         | StartLoop idx \<Rightarrow>
             (if idx < core s
              then Some ([], set_cpc c (StartLoop (idx + 1)) (s\<lparr>pool := pool s @ [WStart]\<rparr>))
              else Some ([], set_cpc c (Idle Void) s))
         | CommitCheck f \<Rightarrow>
             (if quit s
              then Some ([Throw c error_message], set_cpc c (Idle (Runtime_error error_message)) s)
              else Some ([], set_cpc c (CommitMake f) s))
         | CommitMake f \<Rightarrow>
             Some ([], set_cpc c (CommitLock (Task f (length (futures s))))
                         (s\<lparr>futures := futures s @ [None]\<rparr>))
         | CommitLock t \<Rightarrow>
             (if oper_lock s = None
              then Some ([Acquire (CallerT c)],
                         set_cpc c (CommitEmplace t) (s\<lparr>oper_lock := Some (CallerT c)\<rparr>))
              else None)
         | CommitEmplace t \<Rightarrow>
             Some ([Enqueue t], set_cpc c (CommitNotify t) (s\<lparr>tasks := tasks s @ [t]\<rparr>))
         | CommitNotify t \<Rightarrow>
             (if WBlocked \<in> set (pool s) then None
              else Some ([Notify_one None], set_cpc c (CommitReturn t) s))
         | CommitReturn t \<Rightarrow>
             Some ([Release (CallerT c)],
                   set_cpc c (Idle (Future (future t))) (s\<lparr>oper_lock := None\<rparr>))
         | ShutdownQuit b \<Rightarrow> Some ([], set_cpc c (ShutdownForce b) (s\<lparr>quit := True\<rparr>))
         | ShutdownForce b \<Rightarrow> Some ([], set_cpc c (Idle Void) (s\<lparr>force := b\<rparr>))
         | DtorQuit \<Rightarrow> Some ([], set_cpc c DtorNotify (s\<lparr>quit := True\<rparr>))
         | DtorNotify \<Rightarrow>
             Some ([Notify_all], set_cpc c (DtorJoin 0) (s\<lparr>pool := map wake (pool s)\<rparr>))
         | DtorJoin k \<Rightarrow>
             (if k < length (pool s)
              then (if pool s ! k = WExited then Some ([], set_cpc c (DtorJoin (k + 1)) s)
                    else None)
              else Some ([], set_cpc c Destroyed s))
         | Destroyed \<Rightarrow> None)
      else None)"

text \<open>Line 88 with worker \<open>w\<close> waiting: \<^verbatim>\<open>notify_one\<close> unblocks \<open>w\<close>.\<close>

definition wake_step :: "nat \<Rightarrow> nat \<Rightarrow> state \<Rightarrow> (event list \<times> state) option" where
  "wake_step c w s =
     (if c < length (callers s) \<and> w < length (pool s) then
        (case callers s ! c of
           CommitNotify t \<Rightarrow>
             (if pool s ! w = WBlocked
              then Some ([Notify_one (Some w)], set_cpc c (CommitReturn t) (set_wpc w WNotified s))
              else None)
         | _ \<Rightarrow> None)
      else None)"

text \<open>
  A calling thread enters a member function. The object must be alive (no thread is in
  the destructor or past it), and the destructor runs only when no call is in progress.
\<close>

datatype call = Start | Commit outcome | Shutdown bool | Destroy

fun entry :: "call \<Rightarrow> cpc" where
  "entry Start = StartLoop 0"
| "entry (Commit f) = CommitCheck f"
| "entry (Shutdown b) = ShutdownQuit b"
| "entry Destroy = DtorQuit"

fun is_idle :: "cpc \<Rightarrow> bool" where
  "is_idle (Idle r) = True"
| "is_idle _ = False"

fun in_dtor :: "cpc \<Rightarrow> bool" where
  "in_dtor DtorQuit = True"
| "in_dtor DtorNotify = True"
| "in_dtor (DtorJoin k) = True"
| "in_dtor Destroyed = True"
| "in_dtor _ = False"

definition call_step :: "nat \<Rightarrow> call \<Rightarrow> state \<Rightarrow> (event list \<times> state) option" where
  "call_step c k s =
     (if c < length (callers s) \<and> is_idle (callers s ! c)
         \<and> list_all (\<lambda>pc. \<not> in_dtor pc) (callers s)
         \<and> (k = Destroy \<longrightarrow> list_all is_idle (callers s))
      then Some ([], set_cpc c (entry k) s)
      else None)"

datatype action =
    Worker nat
  | Spurious nat
  | Caller nat
  | Wake nat nat
  | Call nat call

fun step :: "action \<Rightarrow> state \<Rightarrow> (event list \<times> state) option" where
  "step (Worker i) s = worker_step i s"
| "step (Spurious i) s = spurious_step i s"
| "step (Caller c) s = caller_step c s"
| "step (Wake c w) s = wake_step c w s"
| "step (Call c k) s = call_step c k s"

text \<open>A schedule runs from a state; \<open>None\<close> when one of its actions cannot move.\<close>

fun run :: "action list \<Rightarrow> state \<Rightarrow> (event list \<times> state) option" where
  "run [] s = Some ([], s)"
| "run (a # as) s =
     (case step a s of
        None \<Rightarrow> None
      | Some (evs, s') \<Rightarrow>
          (case run as s' of
             None \<Rightarrow> None
           | Some (evs', s'') \<Rightarrow> Some (evs @ evs', s'')))"

subsection \<open>What a trace says\<close>

text \<open>The tasks put into the queue, taken from it and invoked, in the order of the trace.\<close>

fun enqueued :: "event list \<Rightarrow> task list" where
  "enqueued [] = []"
| "enqueued (Enqueue t # es) = t # enqueued es"
| "enqueued (e # es) = enqueued es"

fun dequeued :: "event list \<Rightarrow> task list" where
  "dequeued [] = []"
| "dequeued (Dequeue i t # es) = t # dequeued es"
| "dequeued (e # es) = dequeued es"


subsection \<open>The order of a submission in the words of the specification\<close>

text \<open>
  The effects of a successful \<^verbatim>\<open>commit\<close> on the shared objects as the specification
  orders them: the lock is taken, the task appended, the lock released, and then one
  worker notified.
\<close>

definition commit_events_spec :: "nat \<Rightarrow> task \<Rightarrow> nat option \<Rightarrow> event list" where
  "commit_events_spec c t w =
     [Acquire (CallerT c), Enqueue t, Release (CallerT c), Notify_one w]"

subsection \<open>Invariants of the monitor\<close>

text \<open>The statements a thread executes with \<^verbatim>\<open>oper_lock_\<close> held.\<close>

fun holds_w :: "wpc \<Rightarrow> bool" where
  "holds_w WWait = True"
| "holds_w WCheck = True"
| "holds_w WDequeue = True"
| "holds_w WUndefined = True"
| "holds_w _ = False"

fun holds_c :: "cpc \<Rightarrow> bool" where
  "holds_c (CommitEmplace t) = True"
| "holds_c (CommitNotify t) = True"
| "holds_c (CommitReturn t) = True"
| "holds_c _ = False"

text \<open>
  A thread that does not own the mutex is outside the locked regions, and the owner of
  the mutex is inside one.
\<close>

definition mutex_inv :: "state \<Rightarrow> bool" where
  "mutex_inv s \<longleftrightarrow>
     (\<forall>i<length (pool s). oper_lock s \<noteq> Some (WorkerT i) \<longrightarrow> \<not> holds_w (pool s ! i))
   \<and> (\<forall>c<length (callers s). oper_lock s \<noteq> Some (CallerT c) \<longrightarrow> \<not> holds_c (callers s ! c))
   \<and> (\<forall>i. oper_lock s = Some (WorkerT i) \<longrightarrow> i < length (pool s) \<and> holds_w (pool s ! i))
   \<and> (\<forall>c. oper_lock s = Some (CallerT c) \<longrightarrow>
          c < length (callers s) \<and> holds_c (callers s ! c))"

text \<open>
  What a worker knows between the wait predicate and the dequeue: at line 56 shutdown
  was requested or the queue holds a task, at line 59 the queue holds a task.
\<close>

definition dequeue_inv :: "state \<Rightarrow> bool" where
  "dequeue_inv s \<longleftrightarrow>
     (\<forall>i<length (pool s).
        (pool s ! i = WCheck \<longrightarrow> quit s \<or> tasks s \<noteq> [])
      \<and> (pool s ! i = WDequeue \<longrightarrow> tasks s \<noteq> [])
      \<and> pool s ! i \<noteq> WUndefined)"

subsection \<open>Tasks on their way\<close>

text \<open>
  The task a worker has taken from the queue and not yet invoked, and the task a caller
  has made and not yet put into the queue.
\<close>

fun worker_task :: "wpc \<Rightarrow> task list" where
  "worker_task (WRun t) = [t]"
| "worker_task _ = []"






subsection \<open>The destructor's joins\<close>

text \<open>The first \<open>k\<close> threads of \<^verbatim>\<open>pool_\<close> exist and have ended.\<close>

definition joined :: "nat \<Rightarrow> state \<Rightarrow> bool" where
  "joined k s \<longleftrightarrow> (\<forall>i<k. i < length (pool s) \<and> pool s ! i = WExited)"


subsection \<open>Graceful shutdown\<close>










section \<open>Properties\<close>

subsection \<open>Traces and schedules\<close>

lemmas step_defs = worker_step_def spurious_step_def caller_step_def wake_step_def
  call_step_def set_wpc_def set_cpc_def

lemma enqueued_append: "enqueued (xs @ ys) = enqueued xs @ enqueued ys"
  by (induction xs rule: enqueued.induct) simp_all

lemma dequeued_append: "dequeued (xs @ ys) = dequeued xs @ dequeued ys"
  by (induction xs rule: dequeued.induct) simp_all


lemma run_ConsE:
  assumes "run (a # as) s = Some (evs, s'')"
  obtains es s' es' where "step a s = Some (es, s')" "run as s' = Some (es', s'')" "evs = es @ es'"
  using assms by (auto split: option.splits)

subsection \<open>The steps, case by case\<close>

lemma worker_stepE [consumes 1, case_names WStart_forced WStart WReadQuit WLoop_exit
    WLoop_enter WLock WNotified WWait_go WWait_block WCheck_exit WCheck_go WDequeue_undef
    WDequeue WRun WRun_throw]:
  assumes "worker_step i s = Some (es, s')"
  obtains
    "i < length (pool s)" "pool s ! i = WStart" "force s" "es = []"
      "s' = s\<lparr>pool := (pool s)[i := WReadQuit]\<rparr>"
  | "i < length (pool s)" "pool s ! i = WStart" "\<not> force s" "es = []"
      "s' = s\<lparr>pool := (pool s)[i := WLoop False]\<rparr>"
  | "i < length (pool s)" "pool s ! i = WReadQuit" "es = []"
      "s' = s\<lparr>pool := (pool s)[i := WLoop (quit s)]\<rparr>"
  | "i < length (pool s)" "pool s ! i = WLoop True" "es = [Exit i]"
      "s' = s\<lparr>pool := (pool s)[i := WExited]\<rparr>"
  | "i < length (pool s)" "pool s ! i = WLoop False" "es = []"
      "s' = s\<lparr>pool := (pool s)[i := WLock]\<rparr>"
  | "i < length (pool s)" "pool s ! i = WLock" "oper_lock s = None"
      "es = [Acquire (WorkerT i)]"
      "s' = s\<lparr>oper_lock := Some (WorkerT i), pool := (pool s)[i := WWait]\<rparr>"
  | "i < length (pool s)" "pool s ! i = WNotified" "oper_lock s = None"
      "es = [Acquire (WorkerT i)]"
      "s' = s\<lparr>oper_lock := Some (WorkerT i), pool := (pool s)[i := WWait]\<rparr>"
  | "i < length (pool s)" "pool s ! i = WWait" "quit s \<or> tasks s \<noteq> []" "es = []"
      "s' = s\<lparr>pool := (pool s)[i := WCheck]\<rparr>"
  | "i < length (pool s)" "pool s ! i = WWait" "\<not> quit s" "tasks s = []"
      "es = [Release (WorkerT i)]"
      "s' = s\<lparr>oper_lock := None, pool := (pool s)[i := WBlocked]\<rparr>"
  | "i < length (pool s)" "pool s ! i = WCheck" "quit s" "tasks s = []"
      "es = [Release (WorkerT i), Exit i]"
      "s' = s\<lparr>oper_lock := None, pool := (pool s)[i := WExited]\<rparr>"
  | "i < length (pool s)" "pool s ! i = WCheck" "\<not> (quit s \<and> tasks s = [])" "es = []"
      "s' = s\<lparr>pool := (pool s)[i := WDequeue]\<rparr>"
  | "i < length (pool s)" "pool s ! i = WDequeue" "tasks s = []" "es = []"
      "s' = s\<lparr>pool := (pool s)[i := WUndefined]\<rparr>"
  | t q where "i < length (pool s)" "pool s ! i = WDequeue" "tasks s = t # q"
      "es = [Dequeue i t, Release (WorkerT i)]"
      "s' = s\<lparr>tasks := q, oper_lock := None, pool := (pool s)[i := WRun t]\<rparr>"
  | t where "i < length (pool s)" "pool s ! i = WRun t"
      "future t < length (futures s)" "futures s ! future t = None" "es = [Invoke i t]"
      "s' = s\<lparr>futures := (futures s)[future t := Some (callable t)],
               pool := (pool s)[i := WLoop False]\<rparr>"
  | t where "i < length (pool s)" "pool s ! i = WRun t"
      "\<not> (future t < length (futures s) \<and> futures s ! future t = None)" "es = [Invoke i t]"
      "s' = s\<lparr>pool := (pool s)[i := WTerminated]\<rparr>"
proof -
  from assms have i: "i < length (pool s)"
    by (simp add: worker_step_def split: if_splits)
  show ?thesis
  proof (cases "pool s ! i")
    case WStart
    with assms i that(1,2) show ?thesis
      by (cases "force s") (simp_all add: worker_step_def set_wpc_def)
  next
    case WReadQuit
    with assms i that(3) show ?thesis by (simp add: worker_step_def set_wpc_def)
  next
    case (WLoop q)
    with assms i that(4,5) show ?thesis
      by (cases q) (simp_all add: worker_step_def set_wpc_def)
  next
    case WLock
    with assms i that(6) show ?thesis
      by (simp add: worker_step_def set_wpc_def split: if_splits)
  next
    case WWait
    with assms i that(8,9) show ?thesis
      by (cases "quit s \<or> tasks s \<noteq> []") (simp_all add: worker_step_def set_wpc_def)
  next
    case WBlocked
    with assms i show ?thesis by (simp add: worker_step_def)
  next
    case WNotified
    with assms i that(7) show ?thesis
      by (simp add: worker_step_def set_wpc_def split: if_splits)
  next
    case WCheck
    with assms i that(10,11) show ?thesis
      by (cases "quit s \<and> tasks s = []") (simp_all add: worker_step_def set_wpc_def)
  next
    case WDequeue
    with assms i that(12,13) show ?thesis
      by (cases "tasks s") (simp_all add: worker_step_def set_wpc_def)
  next
    case (WRun t)
    with assms i that(14,15) [of t] show ?thesis
      by (cases "future t < length (futures s) \<and> futures s ! future t = None")
        (simp_all add: worker_step_def set_wpc_def packaged_task_call_def)
  next
    case WExited
    with assms i show ?thesis by (simp add: worker_step_def)
  next
    case WUndefined
    with assms i show ?thesis by (simp add: worker_step_def)
  next
    case WTerminated
    with assms i show ?thesis by (simp add: worker_step_def)
  qed
qed

lemma caller_stepE [consumes 1, case_names Start_push Start_done Commit_throw Commit_pass
    CommitMake CommitLock CommitEmplace CommitNotify CommitReturn ShutdownQuit ShutdownForce
    DtorQuit DtorNotify DtorJoin Dtor_done]:
  assumes "caller_step c s = Some (es, s')"
  obtains
    idx where "c < length (callers s)" "callers s ! c = StartLoop idx" "idx < core s" "es = []"
      "s' = s\<lparr>pool := pool s @ [WStart], callers := (callers s)[c := StartLoop (idx + 1)]\<rparr>"
  | idx where "c < length (callers s)" "callers s ! c = StartLoop idx" "\<not> idx < core s"
      "es = []" "s' = s\<lparr>callers := (callers s)[c := Idle Void]\<rparr>"
  | f where "c < length (callers s)" "callers s ! c = CommitCheck f" "quit s"
      "es = [Throw c error_message]"
      "s' = s\<lparr>callers := (callers s)[c := Idle (Runtime_error error_message)]\<rparr>"
  | f where "c < length (callers s)" "callers s ! c = CommitCheck f" "\<not> quit s" "es = []"
      "s' = s\<lparr>callers := (callers s)[c := CommitMake f]\<rparr>"
  | f where "c < length (callers s)" "callers s ! c = CommitMake f" "es = []"
      "s' = s\<lparr>futures := futures s @ [None],
               callers := (callers s)[c := CommitLock (Task f (length (futures s)))]\<rparr>"
  | t where "c < length (callers s)" "callers s ! c = CommitLock t" "oper_lock s = None"
      "es = [Acquire (CallerT c)]"
      "s' = s\<lparr>oper_lock := Some (CallerT c), callers := (callers s)[c := CommitEmplace t]\<rparr>"
  | t where "c < length (callers s)" "callers s ! c = CommitEmplace t" "es = [Enqueue t]"
      "s' = s\<lparr>tasks := tasks s @ [t], callers := (callers s)[c := CommitNotify t]\<rparr>"
  | t where "c < length (callers s)" "callers s ! c = CommitNotify t"
      "WBlocked \<notin> set (pool s)" "es = [Notify_one None]"
      "s' = s\<lparr>callers := (callers s)[c := CommitReturn t]\<rparr>"
  | t where "c < length (callers s)" "callers s ! c = CommitReturn t"
      "es = [Release (CallerT c)]"
      "s' = s\<lparr>oper_lock := None, callers := (callers s)[c := Idle (Future (future t))]\<rparr>"
  | b where "c < length (callers s)" "callers s ! c = ShutdownQuit b" "es = []"
      "s' = s\<lparr>quit := True, callers := (callers s)[c := ShutdownForce b]\<rparr>"
  | b where "c < length (callers s)" "callers s ! c = ShutdownForce b" "es = []"
      "s' = s\<lparr>force := b, callers := (callers s)[c := Idle Void]\<rparr>"
  | "c < length (callers s)" "callers s ! c = DtorQuit" "es = []"
      "s' = s\<lparr>quit := True, callers := (callers s)[c := DtorNotify]\<rparr>"
  | "c < length (callers s)" "callers s ! c = DtorNotify" "es = [Notify_all]"
      "s' = s\<lparr>pool := map wake (pool s), callers := (callers s)[c := DtorJoin 0]\<rparr>"
  | k where "c < length (callers s)" "callers s ! c = DtorJoin k" "k < length (pool s)"
      "pool s ! k = WExited" "es = []"
      "s' = s\<lparr>callers := (callers s)[c := DtorJoin (k + 1)]\<rparr>"
  | k where "c < length (callers s)" "callers s ! c = DtorJoin k" "\<not> k < length (pool s)"
      "es = []" "s' = s\<lparr>callers := (callers s)[c := Destroyed]\<rparr>"
proof -
  from assms have c: "c < length (callers s)"
    by (simp add: caller_step_def split: if_splits)
  show ?thesis
  proof (cases "callers s ! c")
    case (Idle r)
    with assms c show ?thesis by (simp add: caller_step_def)
  next
    case (StartLoop idx)
    with assms c that(1,2) [of idx] show ?thesis
      by (cases "idx < core s") (simp_all add: caller_step_def set_cpc_def)
  next
    case (CommitCheck f)
    with assms c that(3,4) [of f] show ?thesis
      by (cases "quit s") (simp_all add: caller_step_def set_cpc_def)
  next
    case (CommitMake f)
    with assms c that(5) [of f] show ?thesis
      by (simp add: caller_step_def set_cpc_def)
  next
    case (CommitLock t)
    with assms c that(6) [of t] show ?thesis
      by (simp add: caller_step_def set_cpc_def split: if_splits)
  next
    case (CommitEmplace t)
    with assms c that(7) [of t] show ?thesis
      by (simp add: caller_step_def set_cpc_def)
  next
    case (CommitNotify t)
    with assms c that(8) [of t] show ?thesis
      by (simp add: caller_step_def set_cpc_def split: if_splits)
  next
    case (CommitReturn t)
    with assms c that(9) [of t] show ?thesis
      by (simp add: caller_step_def set_cpc_def)
  next
    case (ShutdownQuit b)
    with assms c that(10) [of b] show ?thesis
      by (simp add: caller_step_def set_cpc_def)
  next
    case (ShutdownForce b)
    with assms c that(11) [of b] show ?thesis
      by (simp add: caller_step_def set_cpc_def)
  next
    case DtorQuit
    with assms c that(12) show ?thesis
      by (simp add: caller_step_def set_cpc_def)
  next
    case DtorNotify
    with assms c that(13) show ?thesis
      by (simp add: caller_step_def set_cpc_def)
  next
    case (DtorJoin k)
    with assms c that(14,15) [of k] show ?thesis
      by (cases "k < length (pool s)")
        (simp_all add: caller_step_def set_cpc_def split: if_splits)
  next
    case Destroyed
    with assms c show ?thesis by (simp add: caller_step_def)
  qed
qed

lemma spurious_stepE [consumes 1]:
  assumes "spurious_step i s = Some (es, s')"
  obtains "i < length (pool s)" "pool s ! i = WBlocked" "es = []"
    "s' = s\<lparr>pool := (pool s)[i := WNotified]\<rparr>"
  using assms by (simp add: spurious_step_def set_wpc_def split: if_splits)

lemma wake_stepE [consumes 1]:
  assumes "wake_step c w s = Some (es, s')"
  obtains t where "c < length (callers s)" "callers s ! c = CommitNotify t"
    "w < length (pool s)" "pool s ! w = WBlocked" "es = [Notify_one (Some w)]"
    "s' = s\<lparr>pool := (pool s)[w := WNotified], callers := (callers s)[c := CommitReturn t]\<rparr>"
  using assms
  by (simp add: wake_step_def set_cpc_def set_wpc_def split: if_splits cpc.splits)

lemma call_stepE [consumes 1]:
  assumes "call_step c k s = Some (es, s')"
  obtains r where "c < length (callers s)" "callers s ! c = Idle r"
    "\<forall>pc\<in>set (callers s). \<not> in_dtor pc" "k = Destroy \<longrightarrow> (\<forall>pc\<in>set (callers s). is_idle pc)"
    "es = []" "s' = s\<lparr>callers := (callers s)[c := entry k]\<rparr>"
proof -
  from assms have c: "c < length (callers s)" and "is_idle (callers s ! c)"
    by (simp_all add: call_step_def split: if_splits)
  then obtain r where "callers s ! c = Idle r" by (cases "callers s ! c") simp_all
  with assms c that show ?thesis
    by (simp add: call_step_def set_cpc_def list_all_iff split: if_splits)
qed

subsection \<open>Notification\<close>

text \<open>\<open>wake\<close> changes a blocked worker and nothing else.\<close>

lemma holds_w_wake [simp]: "holds_w (wake pc) = holds_w pc"
  by (cases pc) (simp_all add: wake_def)

lemma wake_eq_simps [simp]:
  "wake pc = WCheck \<longleftrightarrow> pc = WCheck"
  "wake pc = WDequeue \<longleftrightarrow> pc = WDequeue"
  "wake pc = WUndefined \<longleftrightarrow> pc = WUndefined"
  by (cases pc; simp add: wake_def)+

lemma wake_Terminated [simp]:
  "wake pc = WTerminated \<longleftrightarrow> pc = WTerminated"
  "WTerminated = wake pc \<longleftrightarrow> pc = WTerminated"
  by (cases pc; simp add: wake_def)+



lemma worker_task_wake [simp]: "worker_task (wake pc) = worker_task pc"
  by (cases pc) (simp_all add: wake_def)

lemma running_wake [simp]: "concat (map (worker_task \<circ> wake) ps) = concat (map worker_task ps)"
  by (induction ps) simp_all

subsection \<open>Frames\<close>

text \<open>What every step of a thread leaves alone.\<close>

lemma worker_step_bound: "worker_step i s = Some (es, s') \<Longrightarrow> i < length (pool s)"
  by (simp add: worker_step_def split: if_splits)

lemma caller_step_bound: "caller_step c s = Some (es, s') \<Longrightarrow> c < length (callers s)"
  by (simp add: caller_step_def split: if_splits)






subsection \<open>Induction over executions\<close>

lemma run_invariant:
  assumes step: "\<And>a s es s'. P s \<Longrightarrow> step a s = Some (es, s') \<Longrightarrow> P s'"
    and "P s" and "run sched s = Some (evs, s')"
  shows "P s'"
  using assms(2,3)
proof (induction sched arbitrary: s evs)
  case Nil
  then show ?case by simp
next
  case (Cons a as)
  from Cons.prems(2) obtain es s1 es' where
    st: "step a s = Some (es, s1)" and rn: "run as s1 = Some (es', s')"
    by (rule run_ConsE)
  from step [OF Cons.prems(1) st] rn show ?case by (rule Cons.IH)
qed

subsection \<open>The queue is first-in first-out\<close>

lemma worker_step_queue:
  "worker_step i s = Some (es, s') \<Longrightarrow> tasks s @ enqueued es = dequeued es @ tasks s'"
  by (auto simp: worker_step_def set_wpc_def
      split: if_splits wpc.splits list.splits prod.splits option.splits)

lemma caller_step_queue:
  "caller_step c s = Some (es, s') \<Longrightarrow> tasks s @ enqueued es = dequeued es @ tasks s'"
  by (auto simp: caller_step_def set_cpc_def split: if_splits cpc.splits)

lemma step_queue:
  "step a s = Some (es, s') \<Longrightarrow> tasks s @ enqueued es = dequeued es @ tasks s'"
  by (cases a)
    (auto simp: worker_step_queue caller_step_queue spurious_step_def wake_step_def
      call_step_def set_wpc_def set_cpc_def split: if_splits cpc.splits)

lemma run_queue:
  "run sched s = Some (evs, s') \<Longrightarrow> tasks s @ enqueued evs = dequeued evs @ tasks s'"
proof (induction sched arbitrary: s evs)
  case Nil
  then show ?case by simp
next
  case (Cons a as)
  from Cons.prems obtain es s1 es' where
    st: "step a s = Some (es, s1)" and rn: "run as s1 = Some (es', s')" and evs: "evs = es @ es'"
    by (rule run_ConsE)
  have "tasks s @ enqueued es @ enqueued es' = dequeued es @ tasks s1 @ enqueued es'"
    using step_queue [OF st] by (metis append.assoc)
  also have "\<dots> = dequeued es @ dequeued es' @ tasks s'"
    using Cons.IH [OF rn] by simp
  finally show ?case by (simp add: evs enqueued_append dequeued_append)
qed

lemma step_dequeue_front:
  "step a s = Some (es, s') \<Longrightarrow> dequeued es \<noteq> [] \<Longrightarrow>
     \<exists>t. dequeued es = [t] \<and> tasks s = t # tasks s'"
  by (cases a)
    (auto simp: step_defs
      split: if_splits wpc.splits cpc.splits list.splits prod.splits option.splits)

text \<open>
  C6. In every execution from the constructor, the tasks put into the queue are, in
  their order, the tasks taken from it followed by the tasks still in it: the tasks are
  taken in the order they were put in. A step that takes a task takes exactly one, the
  front of the queue.
\<close>

theorem tasks_fifo:
  assumes "run sched (ThreadPool n co mx ca) = Some (evs, s)"
  shows "enqueued evs = dequeued evs @ tasks s
    \<and> prefix (dequeued evs) (enqueued evs)
    \<and> (\<forall>a es s'. step a s = Some (es, s') \<longrightarrow> dequeued es \<noteq> [] \<longrightarrow>
          (\<exists>t. dequeued es = [t] \<and> tasks s = t # tasks s'))"
proof -
  have "tasks (ThreadPool n co mx ca) = []" by (simp add: ThreadPool_def)
  with run_queue [OF assms] have q: "enqueued evs = dequeued evs @ tasks s" by simp
  then have "prefix (dequeued evs) (enqueued evs)" by simp
  with q show ?thesis using step_dequeue_front by blast
qed

theorem tasks_fifo_witness:
  "run ([Call 0 (Commit (Value 1))] @ replicate 6 (Caller 0)
        @ [Call 0 (Commit (Exception ''x''))] @ replicate 6 (Caller 0)
        @ [Call 0 Start, Caller 0, Caller 0] @ replicate 11 (Worker 0)) (ThreadPool 1 1 0 0)
     = Some ([Acquire (CallerT 0), Enqueue (Task (Value 1) 0), Notify_one None,
              Release (CallerT 0), Acquire (CallerT 0),
              Enqueue (Task (Exception ''x'') 1), Notify_one None,
              Release (CallerT 0), Acquire (WorkerT 0), Dequeue 0 (Task (Value 1) 0),
              Release (WorkerT 0), Invoke 0 (Task (Value 1) 0), Acquire (WorkerT 0)],
             \<lparr>pool = [WDequeue], tasks = [Task (Exception ''x'') 1], core = 1,
              max_m = 0, cache = 0, quit = False, force = False,
              oper_lock = Some (WorkerT 0), futures = [Some (Value 1), None],
              callers = [Idle Void]\<rparr>)
   \<and> prefix [Task (Value 1) 0] [Task (Value 1) 0, Task (Exception ''x'') 1]
   \<and> step (Worker 0)
         \<lparr>pool = [WDequeue], tasks = [Task (Exception ''x'') 1], core = 1,
          max_m = 0, cache = 0, quit = False, force = False,
          oper_lock = Some (WorkerT 0), futures = [Some (Value 1), None],
          callers = [Idle Void]\<rparr>
       = Some ([Dequeue 0 (Task (Exception ''x'') 1), Release (WorkerT 0)],
          \<lparr>pool = [WRun (Task (Exception ''x'') 1)], tasks = [], core = 1,
           max_m = 0, cache = 0, quit = False, force = False, oper_lock = None,
           futures = [Some (Value 1), None], callers = [Idle Void]\<rparr>)"
  (is "?r = Some (?evs, ?s) \<and> ?p \<and> ?d")
proof -
  have r: "?r = Some (?evs, ?s)"
    by (simp add: step_defs ThreadPool_def packaged_task_call_def eval_nat_numeral)
  have d: ?d by (simp add: step_defs)
  from tasks_fifo [OF r] have "prefix (dequeued ?evs) (enqueued ?evs)" by blast
  then have ?p by simp
  with r d show ?thesis by blast
qed

subsection \<open>Submission after shutdown\<close>

lemma step_quit_mono: "step a s = Some (es, s') \<Longrightarrow> quit s \<Longrightarrow> quit s'"
  by (cases a)
    (auto simp: step_defs
      split: if_splits wpc.splits cpc.splits list.splits prod.splits option.splits)

lemma step_length_callers: "step a s = Some (es, s') \<Longrightarrow> length (callers s') = length (callers s)"
  by (cases a)
    (auto simp: step_defs
      split: if_splits wpc.splits cpc.splits list.splits prod.splits option.splits)

lemma step_other_caller:
  "step a s = Some (es, s') \<Longrightarrow> a \<noteq> Caller c \<Longrightarrow> c < length (callers s) \<Longrightarrow>
     \<not> is_idle (callers s ! c) \<Longrightarrow> (\<forall>t. callers s ! c \<noteq> CommitNotify t) \<Longrightarrow>
     callers s' ! c = callers s ! c"
  by (cases a)
    (auto simp: step_defs nth_list_update
      split: if_splits wpc.splits cpc.splits list.splits prod.splits option.splits)

lemma run_commit_check_pending:
  "run sched s = Some (es, s') \<Longrightarrow> Caller c \<notin> set sched \<Longrightarrow> c < length (callers s) \<Longrightarrow>
     callers s ! c = CommitCheck f \<Longrightarrow> quit s \<Longrightarrow>
     c < length (callers s') \<and> callers s' ! c = CommitCheck f \<and> quit s'"
proof (induction sched arbitrary: s es)
  case Nil
  then show ?case by simp
next
  case (Cons a as)
  from Cons.prems(1) obtain e1 s1 e2 where
    st: "step a s = Some (e1, s1)" and rn: "run as s1 = Some (e2, s')"
    by (rule run_ConsE)
  from Cons.prems have a: "a \<noteq> Caller c" and as: "Caller c \<notin> set as" by auto
  have "callers s1 ! c = CommitCheck f"
    using step_other_caller [OF st a] Cons.prems by simp
  moreover have "c < length (callers s1)"
    using step_length_callers [OF st] Cons.prems by simp
  moreover have "quit s1" using step_quit_mono [OF st] Cons.prems by simp
  ultimately show ?case using Cons.IH [OF rn as] by simp
qed

text \<open>
  C3. A call of \<^verbatim>\<open>commit\<close> made when \<^verbatim>\<open>quit_\<close> is set: whatever the other threads do
  before the caller reaches line 78, its step there throws the runtime error, and the
  state after it differs from the state before only in what that caller is doing: the
  queue, the threads, the flags, the mutex and the futures are as they were.
\<close>

theorem commit_after_shutdown_throws:
  assumes "quit s"
    and "call_step c (Commit f) s = Some (es0, s0)"
    and "run sched s0 = Some (es1, s1)"
    and "Caller c \<notin> set sched"
  shows "step (Caller c) s1 =
           Some ([Throw c error_message],
                 s1\<lparr>callers := (callers s1)[c := Idle (Runtime_error error_message)]\<rparr>)"
proof -
  from assms(2) have c: "c < length (callers s0)" and pc: "callers s0 ! c = CommitCheck f"
    and "quit s0 = quit s"
    by (auto simp: call_step_def set_cpc_def split: if_splits)
  with assms(1) have "quit s0" by simp
  from run_commit_check_pending [OF assms(3,4) c pc this]
  show ?thesis by (simp add: caller_step_def set_cpc_def)
qed

theorem commit_after_shutdown_throws_witness:
  "quit \<lparr>pool = [], tasks = [], core = 1, max_m = 0, cache = 0, quit = True, force = False,
         oper_lock = None, futures = [], callers = [Idle Void, Idle Void]\<rparr>
   \<and> step (Caller 1)
        \<lparr>pool = [WStart], tasks = [], core = 1, max_m = 0, cache = 0, quit = True,
         force = False, oper_lock = None, futures = [],
         callers = [StartLoop 1, CommitCheck (Value 7)]\<rparr>
      = Some ([Throw 1 error_message],
         \<lparr>pool = [WStart], tasks = [], core = 1, max_m = 0, cache = 0, quit = True,
          force = False, oper_lock = None, futures = [],
          callers = [StartLoop 1, Idle (Runtime_error error_message)]\<rparr>)"
proof -
  let ?a = "\<lparr>pool = [], tasks = [], core = 1, max_m = 0, cache = 0, quit = True, force = False,
         oper_lock = None, futures = [], callers = [Idle Void, Idle Void]\<rparr>"
  let ?b = "\<lparr>pool = [], tasks = [], core = 1, max_m = 0, cache = 0, quit = True, force = False,
         oper_lock = None, futures = [], callers = [Idle Void, CommitCheck (Value 7)]\<rparr>"
  let ?d = "\<lparr>pool = [WStart], tasks = [], core = 1, max_m = 0, cache = 0, quit = True,
         force = False, oper_lock = None, futures = [],
         callers = [StartLoop 1, CommitCheck (Value 7)]\<rparr>"
  have q: "quit ?a" by simp
  have c: "call_step 1 (Commit (Value 7)) ?a = Some ([], ?b)" by (simp add: step_defs)
  have r: "run [Call 0 Start, Caller 0] ?b = Some ([], ?d)" by (simp add: step_defs)
  have n: "Caller 1 \<notin> set [Call 0 Start, Caller 0]" by simp
  from commit_after_shutdown_throws [OF q c r n] q show ?thesis by simp
qed

subsection \<open>Repeated shutdown\<close>

text \<open>
  C10. Two calls of \<^verbatim>\<open>shutdown\<close> by one thread, the second after the first has returned,
  leave the state that the second call alone leaves: \<^verbatim>\<open>quit_\<close> is set and \<^verbatim>\<open>force_\<close> is
  the argument of the last call.
\<close>

theorem shutdown_last_call_wins:
  "run [Call c (Shutdown a), Caller c, Caller c, Call c (Shutdown b), Caller c, Caller c] s
     = run [Call c (Shutdown b), Caller c, Caller c] s
   \<and> (\<forall>es s'. run [Call c (Shutdown a), Caller c, Caller c,
                     Call c (Shutdown b), Caller c, Caller c] s = Some (es, s')
        \<longrightarrow> quit s' \<and> force s' = b \<and> s' = s\<lparr>quit := True, force := b, callers := (callers s)[c := Idle Void]\<rparr>)"
  by (auto simp: call_step_def caller_step_def set_cpc_def list_all_length nth_list_update
      split: if_splits option.splits)

theorem shutdown_last_call_wins_witness:
  "run [Call 0 (Shutdown True), Caller 0, Caller 0, Call 0 (Shutdown False), Caller 0, Caller 0]
       (ThreadPool 1 2 0 0)
     = Some ([], (ThreadPool 1 2 0 0)\<lparr>quit := True, force := False\<rparr>)
   \<and> run [Call 0 (Shutdown False), Caller 0, Caller 0] (ThreadPool 1 2 0 0)
     = Some ([], (ThreadPool 1 2 0 0)\<lparr>quit := True, force := False\<rparr>)"
proof -
  have r: "run [Call 0 (Shutdown True), Caller 0, Caller 0, Call 0 (Shutdown False), Caller 0, Caller 0]
       (ThreadPool 1 2 0 0) = Some ([], (ThreadPool 1 2 0 0)\<lparr>quit := True, force := False\<rparr>)"
    by (simp add: step_defs ThreadPool_def)
  with shutdown_last_call_wins [of 0 True False "ThreadPool 1 2 0 0"] show ?thesis by simp
qed

subsection \<open>Submission\<close>

text \<open>
  C5, as the code has it. A call of \<^verbatim>\<open>commit\<close> that finds \<^verbatim>\<open>quit_\<close> clear and then
  runs with the mutex free: it makes the task and its future, takes the lock, appends
  the task at the back of the queue, calls \<^verbatim>\<open>notify_one\<close> while it still holds the lock
  (one waiting worker is unblocked when a worker waits, none otherwise), and releases
  the lock only when it returns the future. The future is returned unfilled: the call
  does not wait for the task.
\<close>

theorem commit_notifies_before_unlock:
  assumes "c < length (callers s)" and "callers s ! c = CommitCheck f" and "\<not> quit s"
    and "oper_lock s = None"
  shows "(WBlocked \<notin> set (pool s) \<longrightarrow>
            run [Caller c, Caller c, Caller c, Caller c, Caller c, Caller c] s =
              Some ([Acquire (CallerT c), Enqueue (Task f (length (futures s))), Notify_one None,
                     Release (CallerT c)],
                    s\<lparr>tasks := tasks s @ [Task f (length (futures s))],
                      futures := futures s @ [None],
                      callers := (callers s)[c := Idle (Future (length (futures s)))]\<rparr>))
    \<and> (w < length (pool s) \<and> pool s ! w = WBlocked \<longrightarrow>
            run [Caller c, Caller c, Caller c, Caller c, Wake c w, Caller c] s =
              Some ([Acquire (CallerT c), Enqueue (Task f (length (futures s))),
                     Notify_one (Some w), Release (CallerT c)],
                    s\<lparr>pool := (pool s)[w := WNotified],
                      tasks := tasks s @ [Task f (length (futures s))],
                      futures := futures s @ [None],
                      callers := (callers s)[c := Idle (Future (length (futures s)))]\<rparr>))
    \<and> (\<forall>a es s'. run [Caller c, Caller c, Caller c, Caller c, a] s = Some (es, s') \<longrightarrow>
            oper_lock s' = Some (CallerT c) \<or> (\<forall>w. Notify_one w \<notin> set es))"
  using assms
  apply (intro conjI impI allI)
    apply (simp add: step_defs)
   apply (simp add: step_defs)
  subgoal for a es s'
    apply (cases a)
    apply (auto simp: step_defs nth_list_update
      split: if_splits wpc.splits cpc.splits list.splits prod.splits option.splits)
    done
  done

theorem commit_notifies_before_unlock_witness:
  "run [Caller 0, Caller 0, Caller 0, Caller 0, Caller 0, Caller 0]
       \<lparr>pool = [], tasks = [], core = 0, max_m = 0, cache = 0, quit = False, force = False,
        oper_lock = None, futures = [], callers = [CommitCheck (Value 1)]\<rparr>
     = Some ([Acquire (CallerT 0), Enqueue (Task (Value 1) 0), Notify_one None,
              Release (CallerT 0)],
             \<lparr>pool = [], tasks = [Task (Value 1) 0], core = 0, max_m = 0, cache = 0,
              quit = False, force = False, oper_lock = None, futures = [None],
              callers = [Idle (Future 0)]\<rparr>)
   \<and> run [Caller 1, Caller 1, Caller 1, Caller 1, Wake 1 0, Caller 1]
       \<lparr>pool = [WBlocked], tasks = [], core = 1, max_m = 0, cache = 0, quit = False,
        force = False, oper_lock = None, futures = [],
        callers = [Idle Void, CommitCheck (Exception ''e'')]\<rparr>
     = Some ([Acquire (CallerT 1), Enqueue (Task (Exception ''e'') 0), Notify_one (Some 0),
              Release (CallerT 1)],
             \<lparr>pool = [WNotified], tasks = [Task (Exception ''e'') 0], core = 1, max_m = 0,
              cache = 0, quit = False, force = False, oper_lock = None, futures = [None],
              callers = [Idle Void, Idle (Future 0)]\<rparr>)"
proof -
  let ?a = "\<lparr>pool = [], tasks = [], core = 0, max_m = 0, cache = 0, quit = False, force = False,
        oper_lock = None, futures = [], callers = [CommitCheck (Value 1)]\<rparr>"
  let ?b = "\<lparr>pool = [WBlocked], tasks = [], core = 1, max_m = 0, cache = 0, quit = False,
        force = False, oper_lock = None, futures = [],
        callers = [Idle Void, CommitCheck (Exception ''e'')]\<rparr>"
  have a: "0 < length (callers ?a)" "callers ?a ! 0 = CommitCheck (Value 1)" "\<not> quit ?a"
    "oper_lock ?a = None" "WBlocked \<notin> set (pool ?a)"
    by simp_all
  have b: "1 < length (callers ?b)" "callers ?b ! 1 = CommitCheck (Exception ''e'')"
    "\<not> quit ?b" "oper_lock ?b = None" "0 < length (pool ?b) \<and> pool ?b ! 0 = WBlocked"
    by simp_all
  from commit_notifies_before_unlock [OF a(1-4), of 0] a(5)
    commit_notifies_before_unlock [OF b(1-4), of 0] b(5)
  show ?thesis by simp
qed

text \<open>
  C5 as stated fails: the trace of a submission is not the one in which the lock is
  released before the worker is notified.
\<close>

theorem commit_order_counterexample:
  "map_option fst (run [Call 0 (Commit (Value 1)), Caller 0, Caller 0, Caller 0, Caller 0,
                        Caller 0, Caller 0] (ThreadPool 1 0 0 0))
     = Some [Acquire (CallerT 0), Enqueue (Task (Value 1) 0), Notify_one None,
             Release (CallerT 0)]
   \<and> map_option fst (run [Call 0 (Commit (Value 1)), Caller 0, Caller 0, Caller 0, Caller 0,
                          Caller 0, Caller 0] (ThreadPool 1 0 0 0))
     \<noteq> Some (commit_events_spec 0 (Task (Value 1) 0) None)
   \<and> map_option (oper_lock \<circ> snd)
       (run [Call 0 (Commit (Value 1)), Caller 0, Caller 0, Caller 0, Caller 0, Caller 0]
          (ThreadPool 1 0 0 0))
     = Some (Some (CallerT 0))"
  by (simp add: step_defs ThreadPool_def commit_events_spec_def)

subsection \<open>What shutdown does not do\<close>

text \<open>
  C4 at a failing input. One worker waits on the condition variable with the queue
  empty, and \<^verbatim>\<open>shutdown(false)\<close> runs to its end: both flags are stored, no
  notification is sent, the worker is still blocked and cannot move, although the exit
  condition of line 56 holds.
\<close>

theorem shutdown_notifies_nobody:
  "run ([Call 0 Start, Caller 0, Caller 0] @ replicate 4 (Worker 0)
        @ [Call 0 (Shutdown False), Caller 0, Caller 0]) (ThreadPool 1 1 0 0)
     = Some ([Acquire (WorkerT 0), Release (WorkerT 0)],
             \<lparr>pool = [WBlocked], tasks = [], core = 1, max_m = 0, cache = 0,
              quit = True, force = False, oper_lock = None, futures = [],
              callers = [Idle Void]\<rparr>)
   \<and> step (Worker 0)
         \<lparr>pool = [WBlocked], tasks = [], core = 1, max_m = 0, cache = 0,
          quit = True, force = False, oper_lock = None, futures = [],
          callers = [Idle Void]\<rparr> = None"
  by (simp add: step_defs ThreadPool_def eval_nat_numeral)

text \<open>
  C2 at a failing input. One worker is executing the first of two submitted tasks when
  \<^verbatim>\<open>shutdown(true)\<close> runs to its end; the second task is still in the queue. The
  worker then finishes the first task, takes the second from the queue and invokes it.
\<close>

theorem forced_shutdown_still_runs_queued_task:
  "run ([Call 0 (Commit (Value 1))] @ replicate 6 (Caller 0)
        @ [Call 0 (Commit (Value 2))] @ replicate 6 (Caller 0)
        @ [Call 0 Start, Caller 0, Caller 0] @ replicate 6 (Worker 0)
        @ [Call 0 (Shutdown True), Caller 0, Caller 0]) (ThreadPool 1 1 0 0)
     = Some ([Acquire (CallerT 0), Enqueue (Task (Value 1) 0), Notify_one None,
              Release (CallerT 0), Acquire (CallerT 0), Enqueue (Task (Value 2) 1),
              Notify_one None, Release (CallerT 0), Acquire (WorkerT 0),
              Dequeue 0 (Task (Value 1) 0), Release (WorkerT 0)],
             \<lparr>pool = [WRun (Task (Value 1) 0)], tasks = [Task (Value 2) 1], core = 1,
              max_m = 0, cache = 0, quit = True, force = True, oper_lock = None,
              futures = [None, None], callers = [Idle Void]\<rparr>)
   \<and> run (replicate 7 (Worker 0))
         \<lparr>pool = [WRun (Task (Value 1) 0)], tasks = [Task (Value 2) 1], core = 1,
          max_m = 0, cache = 0, quit = True, force = True, oper_lock = None,
          futures = [None, None], callers = [Idle Void]\<rparr>
     = Some ([Invoke 0 (Task (Value 1) 0), Acquire (WorkerT 0),
              Dequeue 0 (Task (Value 2) 1), Release (WorkerT 0),
              Invoke 0 (Task (Value 2) 1)],
             \<lparr>pool = [WLoop False], tasks = [], core = 1, max_m = 0, cache = 0,
              quit = True, force = True, oper_lock = None,
              futures = [Some (Value 1), Some (Value 2)], callers = [Idle Void]\<rparr>)"
  by (simp add: step_defs ThreadPool_def packaged_task_call_def eval_nat_numeral)

subsection \<open>Mutual exclusion and the dequeue\<close>

lemma mutex_owner_w:
  "mutex_inv s \<Longrightarrow> i < length (pool s) \<Longrightarrow> (oper_lock s = Some (WorkerT i)) = holds_w (pool s ! i)"
  unfolding mutex_inv_def by blast

lemma mutex_owner_c:
  "mutex_inv s \<Longrightarrow> c < length (callers s) \<Longrightarrow> (oper_lock s = Some (CallerT c)) = holds_c (callers s ! c)"
  unfolding mutex_inv_def by blast

lemma mutex_worker_step:
  assumes st: "worker_step i s = Some (es, s')" and inv: "mutex_inv s"
  shows "mutex_inv s'"
proof -
  note own = mutex_owner_w [OF inv worker_step_bound [OF st]]
  from st show ?thesis using inv own
    by (cases rule: worker_stepE; simp add: mutex_inv_def nth_list_update)
qed

lemma mutex_caller_step:
  assumes st: "caller_step c s = Some (es, s')" and inv: "mutex_inv s"
  shows "mutex_inv s'"
proof -
  note own = mutex_owner_c [OF inv caller_step_bound [OF st]]
  from st show ?thesis using inv own
    by (cases rule: caller_stepE; simp add: mutex_inv_def nth_list_update nth_append less_Suc_eq)
qed

lemma mutex_step: "mutex_inv s \<Longrightarrow> step a s = Some (es, s') \<Longrightarrow> mutex_inv s'"
proof (cases a)
  case (Worker i)
  assume "mutex_inv s" "step a s = Some (es, s')"
  with Worker show ?thesis using mutex_worker_step by simp
next
  case (Spurious i)
  assume inv: "mutex_inv s" and "step a s = Some (es, s')"
  with Spurious have st: "spurious_step i s = Some (es, s')" by simp
  then have "i < length (pool s)" by (rule spurious_stepE)
  note own = mutex_owner_w [OF inv this]
  from st show ?thesis using inv own
    by (cases rule: spurious_stepE) (simp add: mutex_inv_def nth_list_update)
next
  case (Caller c)
  assume "mutex_inv s" "step a s = Some (es, s')"
  with Caller show ?thesis using mutex_caller_step by simp
next
  case (Wake c w)
  assume inv: "mutex_inv s" and "step a s = Some (es, s')"
  with Wake have st: "wake_step c w s = Some (es, s')" by simp
  then have "c < length (callers s)" "w < length (pool s)" by (auto elim: wake_stepE)
  note own = mutex_owner_c [OF inv this(1)] mutex_owner_w [OF inv this(2)]
  from st show ?thesis using inv own
    by (cases rule: wake_stepE) (simp add: mutex_inv_def nth_list_update)
next
  case (Call c k)
  assume inv: "mutex_inv s" and "step a s = Some (es, s')"
  with Call have st: "call_step c k s = Some (es, s')" by simp
  then have "c < length (callers s)" by (rule call_stepE)
  note own = mutex_owner_c [OF inv this]
  from st show ?thesis using inv own
    by (cases rule: call_stepE; cases k; simp add: mutex_inv_def nth_list_update)
qed

lemma mutex_others:
  assumes "mutex_inv s"
  shows "\<forall>j<length (pool s). oper_lock s \<noteq> Some (WorkerT j) \<longrightarrow>
           pool s ! j \<noteq> WWait \<and> pool s ! j \<noteq> WCheck \<and> pool s ! j \<noteq> WDequeue"
proof (intro allI impI)
  fix j assume "j < length (pool s)" "oper_lock s \<noteq> Some (WorkerT j)"
  with assms have "\<not> holds_w (pool s ! j)" by (simp add: mutex_inv_def)
  then show "pool s ! j \<noteq> WWait \<and> pool s ! j \<noteq> WCheck \<and> pool s ! j \<noteq> WDequeue"
    by (cases "pool s ! j") simp_all
qed

lemma dequeue_worker_step:
  assumes st: "worker_step i s = Some (es, s')" and mx: "mutex_inv s" and inv: "dequeue_inv s"
  shows "dequeue_inv s'"
proof -
  note i = worker_step_bound [OF st]
  note own = mutex_owner_w [OF mx i] mutex_others [OF mx]
  from inv i have mine: "pool s ! i = WCheck \<longrightarrow> quit s \<or> tasks s \<noteq> []"
    "pool s ! i = WDequeue \<longrightarrow> tasks s \<noteq> []"
    by (simp_all add: dequeue_inv_def)
  from st show ?thesis using inv own mine
    by (cases rule: worker_stepE; simp add: dequeue_inv_def nth_list_update; blast)
qed

lemma dequeue_caller_step:
  assumes st: "caller_step c s = Some (es, s')" and inv: "dequeue_inv s"
  shows "dequeue_inv s'"
  using st inv
  by (cases rule: caller_stepE; simp add: dequeue_inv_def nth_list_update nth_append less_Suc_eq)

lemma dequeue_step:
  assumes "step a s = Some (es, s')" and mx: "mutex_inv s" and inv: "dequeue_inv s"
  shows "dequeue_inv s'"
proof (cases a)
  case (Worker i)
  with assms show ?thesis using dequeue_worker_step by simp
next
  case (Spurious i)
  with assms have "spurious_step i s = Some (es, s')" by simp
  then show ?thesis using inv
    by (cases rule: spurious_stepE) (simp add: dequeue_inv_def nth_list_update)
next
  case (Caller c)
  with assms show ?thesis using dequeue_caller_step by simp
next
  case (Wake c w)
  with assms have "wake_step c w s = Some (es, s')" by simp
  then show ?thesis using inv
    by (cases rule: wake_stepE) (simp add: dequeue_inv_def nth_list_update)
next
  case (Call c k)
  with assms have "call_step c k s = Some (es, s')" by simp
  then show ?thesis using inv
    by (cases rule: call_stepE) (simp add: dequeue_inv_def)
qed

lemma monitor_step:
  "mutex_inv s \<and> dequeue_inv s \<Longrightarrow> step a s = Some (es, s') \<Longrightarrow>
     mutex_inv s' \<and> dequeue_inv s'"
  using mutex_step dequeue_step by blast

lemma monitor_init: "mutex_inv (ThreadPool n co mx ca) \<and> dequeue_inv (ThreadPool n co mx ca)"
  by (simp add: mutex_inv_def dequeue_inv_def ThreadPool_def)

lemma monitor_reachable:
  assumes "run sched (ThreadPool n co mx ca) = Some (evs, s)"
  shows "mutex_inv s \<and> dequeue_inv s"
  using monitor_step monitor_init assms
  by (rule run_invariant [where P = "\<lambda>s. mutex_inv s \<and> dequeue_inv s"])

text \<open>
  C9. In every execution from the constructor, a worker that stands before line 59 finds
  a task in the queue, so its step is the dequeue of the front task and not the
  undefined \<^verbatim>\<open>front()\<close> of an empty queue, which no worker has ever called. A worker
  that stands before the check of line 56 knows what the wait predicate promised:
  shutdown was requested or the queue holds a task.
\<close>

theorem dequeue_never_on_empty_queue:
  assumes "run sched (ThreadPool n co mx ca) = Some (evs, s)" and "i < length (pool s)"
  shows "(pool s ! i = WCheck \<longrightarrow> quit s \<or> tasks s \<noteq> [])
    \<and> (pool s ! i = WDequeue \<longrightarrow>
          tasks s \<noteq> []
          \<and> step (Worker i) s =
              Some ([Dequeue i (hd (tasks s)), Release (WorkerT i)],
                    s\<lparr>tasks := tl (tasks s), oper_lock := None,
                      pool := (pool s)[i := WRun (hd (tasks s))]\<rparr>))
    \<and> pool s ! i \<noteq> WUndefined"
proof -
  from monitor_reachable [OF assms(1)] have "dequeue_inv s" ..
  with assms(2) have *: "pool s ! i = WCheck \<longrightarrow> quit s \<or> tasks s \<noteq> []"
    "pool s ! i = WDequeue \<longrightarrow> tasks s \<noteq> []" "pool s ! i \<noteq> WUndefined"
    by (simp_all add: dequeue_inv_def)
  have "step (Worker i) s =
      Some ([Dequeue i (hd (tasks s)), Release (WorkerT i)],
            s\<lparr>tasks := tl (tasks s), oper_lock := None,
              pool := (pool s)[i := WRun (hd (tasks s))]\<rparr>)"
    if "pool s ! i = WDequeue"
  proof -
    from that * obtain t q where "tasks s = t # q" by (cases "tasks s") simp_all
    with that assms(2) show ?thesis by (simp add: worker_step_def set_wpc_def)
  qed
  with * show ?thesis by blast
qed

theorem dequeue_never_on_empty_queue_witness:
  "run ([Call 0 (Commit (Value 5))] @ replicate 6 (Caller 0)
        @ [Call 0 Start, Caller 0, Caller 0] @ replicate 5 (Worker 0)) (ThreadPool 1 1 0 0)
     = Some ([Acquire (CallerT 0), Enqueue (Task (Value 5) 0), Notify_one None,
              Release (CallerT 0), Acquire (WorkerT 0)],
             \<lparr>pool = [WDequeue], tasks = [Task (Value 5) 0], core = 1, max_m = 0,
              cache = 0, quit = False, force = False, oper_lock = Some (WorkerT 0),
              futures = [None], callers = [Idle Void]\<rparr>)
   \<and> step (Worker 0)
         \<lparr>pool = [WDequeue], tasks = [Task (Value 5) 0], core = 1, max_m = 0,
          cache = 0, quit = False, force = False, oper_lock = Some (WorkerT 0),
          futures = [None], callers = [Idle Void]\<rparr>
     = Some ([Dequeue 0 (Task (Value 5) 0), Release (WorkerT 0)],
             \<lparr>pool = [WRun (Task (Value 5) 0)], tasks = [], core = 1, max_m = 0,
              cache = 0, quit = False, force = False, oper_lock = None,
              futures = [None], callers = [Idle Void]\<rparr>)"
  (is "?r = Some (?evs, ?a) \<and> _")
proof -
  have r: "?r = Some (?evs, ?a)"
    by (simp add: step_defs ThreadPool_def eval_nat_numeral)
  have "0 < length (pool ?a)" by simp
  from dequeue_never_on_empty_queue [OF r this] r show ?thesis by simp
qed

subsection \<open>Pending tasks\<close>







subsection \<open>Every pending task has an empty shared state of its own\<close>











subsection \<open>The destructor joins every thread\<close>




lemma joined_callers [simp]: "joined k (s\<lparr>callers := x\<rparr>) = joined k s"
  by (simp add: joined_def)

lemma joined_quit [simp]: "joined k (s\<lparr>quit := x\<rparr>) = joined k s"
  by (simp add: joined_def)

lemma joined_force [simp]: "joined k (s\<lparr>force := x\<rparr>) = joined k s"
  by (simp add: joined_def)

lemma joined_oper_lock [simp]: "joined k (s\<lparr>oper_lock := x\<rparr>) = joined k s"
  by (simp add: joined_def)

lemma joined_tasks [simp]: "joined k (s\<lparr>tasks := x\<rparr>) = joined k s"
  by (simp add: joined_def)

lemma joined_futures [simp]: "joined k (s\<lparr>futures := x\<rparr>) = joined k s"
  by (simp add: joined_def)

lemma joined_0 [simp]: "joined 0 s"
  by (simp add: joined_def)











subsection \<open>The workers run out of statements\<close>




subsection \<open>Accepted tasks are conserved\<close>



subsection \<open>Graceful executions\<close>
















subsection \<open>Every task has a future of its own\<close>




subsection \<open>Workers leave only a drained queue\<close>









end
